theory Spec2Isabelle
  imports Complex_Main "HOL-Library.Log_Nat"
begin

section \<open>Python values used by the script\<close>

text \<open>
  The exceptions that the script and the library calls it makes can raise. All of them
  are subclasses of Python's \<open>Exception\<close>; \<open>FileNotFoundError\<close> is the only one the
  script's handler names.
\<close>

datatype py_error =
    FileNotFoundError
  | IsADirectoryError
  | PermissionError
  | UnidentifiedImageError
  | ZeroDivisionError
  | OverflowError
  | ValueError

subsection \<open>Floats\<close>

text \<open>
  The operator \<open>/\<close> on two Python ints is true division: the exact quotient, rounded
  once to the nearest IEEE-754 double (ties to even). A finite double is kept as the
  rational number it denotes; the sign of zero and of infinity is dropped, since the
  script only multiplies floats and converts them with \<open>int()\<close>.
\<close>

datatype pyfloat = Finite rat | Inf | NaN

definition round_half_even :: "rat \<Rightarrow> int" where
  "round_half_even y =
     (let f = \<lfloor>y\<rfloor>; d = y - of_int f
      in if d < 1 / 2 then f else if 1 / 2 < d then f + 1 else if even f then f else f + 1)"

text \<open>The exponent \<open>E\<close> with \<open>2 powi E \<le> x < 2 powi (E + 1)\<close>, for positive \<open>x\<close>.\<close>

definition floor_log2 :: "rat \<Rightarrow> int" where
  "floor_log2 x =
     (let d = bitlen (fst (quotient_of x)) - bitlen (snd (quotient_of x))
      in if 2 powi d \<le> x then d else d - 1)"

text \<open>
  Rounding to a 53-bit significand; below \<open>2 powi (- 1022)\<close> the spacing stays at
  \<open>2 powi (- 1074)\<close> (subnormal numbers). The exponent is not bounded above here:
  the callers test the rounded value against \<open>2 ^ 1024\<close>.
\<close>

definition round_to_double :: "rat \<Rightarrow> rat" where
  "round_to_double x =
     (if x = 0 then 0
      else let e = max (floor_log2 \<bar>x\<bar> - 52) (- 1074)
           in of_int (round_half_even (x / 2 powi e)) * 2 powi e)"

text \<open>\<open>a / b\<close> on ints: raises on a zero divisor and when the quotient is too large.\<close>

definition int_truediv :: "int \<Rightarrow> int \<Rightarrow> py_error + pyfloat" where
  "int_truediv a b =
     (if b = 0 then Inl ZeroDivisionError
      else let r = round_to_double (of_int a / of_int b)
           in if of_int (2 ^ 1024) \<le> \<bar>r\<bar> then Inl OverflowError else Inr (Finite r))"

text \<open>\<open>x * y\<close> on floats: never raises, overflows to infinity.\<close>

fun float_mul :: "pyfloat \<Rightarrow> pyfloat \<Rightarrow> pyfloat" where
  "float_mul (Finite a) (Finite b) =
     (let r = round_to_double (a * b)
      in if of_int (2 ^ 1024) \<le> \<bar>r\<bar> then Inf else Finite r)"
| "float_mul NaN _ = NaN"
| "float_mul _ NaN = NaN"
| "float_mul Inf (Finite b) = (if b = 0 then NaN else Inf)"
| "float_mul (Finite a) Inf = (if a = 0 then NaN else Inf)"
| "float_mul Inf Inf = Inf"

text \<open>\<open>int(x)\<close> on a float: truncation towards zero.\<close>

definition trunc :: "rat \<Rightarrow> int" where
  "trunc x = (if 0 \<le> x then \<lfloor>x\<rfloor> else \<lceil>x\<rceil>)"

fun int_of_float :: "pyfloat \<Rightarrow> py_error + int" where
  "int_of_float (Finite x) = Inr (trunc x)"
| "int_of_float Inf = Inl OverflowError"
| "int_of_float NaN = Inl ValueError"

subsection \<open>Strings and paths\<close>

text \<open>
  \<open>str.lower\<close>, on the ASCII letters. The script only compares the result with
  \<open>'all'\<close>, and no character outside ASCII lowers to \<open>a\<close> or \<open>l\<close>.
\<close>

definition lower_char :: "char \<Rightarrow> char" where
  "lower_char c =
     (let n = (of_char c :: nat) in if 65 \<le> n \<and> n \<le> 90 then char_of (n + 32) else c)"

definition lower :: "string \<Rightarrow> string" where
  "lower s = map lower_char s"

definition endswith :: "string \<Rightarrow> string \<Rightarrow> bool" where
  "endswith s suf = (length suf \<le> length s \<and> drop (length s - length suf) s = suf)"

definition startswith :: "string \<Rightarrow> string \<Rightarrow> bool" where
  "startswith s pre = (take (length pre) s = pre)"

text \<open>\<open>s.rfind(c)\<close>: the index of the last occurrence of \<open>c\<close>, or \<open>-1\<close>.\<close>

definition rfind :: "string \<Rightarrow> char \<Rightarrow> int" where
  "rfind s c =
     (if c \<in> set s then int (length s) - 1 - int (length (takeWhile (\<lambda>x. x \<noteq> c) (rev s)))
      else - 1)"

definition rstrip :: "string \<Rightarrow> char \<Rightarrow> string" where
  "rstrip s c = rev (dropWhile (\<lambda>x. x = c) (rev s))"

text \<open>
  The functions of \<open>os.path\<close> that the script calls, as \<open>posixpath\<close> defines them
  (separator \<open>/\<close>, extension separator \<open>.\<close>).
\<close>

definition os_path_split :: "string \<Rightarrow> string \<times> string" where
  "os_path_split p =
     (let i = nat (rfind p CHR ''/'' + 1);
          head = take i p;
          tail = drop i p
      in (if head \<noteq> [] \<and> head \<noteq> replicate (length head) CHR ''/''
          then rstrip head CHR ''/'' else head, tail))"

definition os_path_splitext :: "string \<Rightarrow> string \<times> string" where
  "os_path_splitext p =
     (let sepIndex = rfind p CHR ''/'';
          dotIndex = rfind p CHR ''.''
      in if sepIndex < dotIndex
            \<and> list_ex (\<lambda>c. c \<noteq> CHR ''.'')
                 (take (nat (dotIndex - (sepIndex + 1))) (drop (nat (sepIndex + 1)) p))
         then (take (nat dotIndex) p, drop (nat dotIndex) p)
         else (p, []))"

definition join_step :: "string \<Rightarrow> string \<Rightarrow> string" where
  "join_step path b =
     (if startswith b ''/'' then b
      else if path = [] \<or> endswith path ''/'' then path @ b
      else path @ ''/'' @ b)"

definition os_path_join :: "string \<Rightarrow> string list \<Rightarrow> string" where
  "os_path_join a ps = foldl join_step a ps"

section \<open>Images, files and the console\<close>

text \<open>
  An image is its size together with a description of where its pixels come from; the
  pixel values themselves are not computed. \<open>Pixels n\<close> is the decoded content of some
  file.
\<close>

datatype content =
    Pixels nat
  | Blank
  | Resized content int int
  | Pasted content content content int int
  | AlphaComposite content content

record image =
  width :: int
  height :: int
  pixels :: content

definition size_of :: "image \<Rightarrow> int \<times> int" where
  "size_of im = (width im, height im)"

datatype format = PNG | JPEG | BMP

datatype stored_file = ImageFile format image | NotAnImage

text \<open>The lines the script prints, one constructor for each \<open>print\<close> call.\<close>

datatype message =
    OpeningImage string
  | ResizingIcon int int
  | SavingResult string
  | Done
  | ErrorCheckPaths py_error
  | ErrorOccurred py_error
  | IconDirNotFound string
  | NoIconsFound string
  | FoundIcons "string list"
  | ProcessingIcon nat nat string

text \<open>
  What the script sees of its environment: the files by path, the directories with
  their listing (in the order \<open>os.listdir\<close> gives), the error that opening a path
  for writing raises, if any, and what has been printed so far.
\<close>

record world =
  files :: "string \<Rightarrow> stored_file option"
  dirs :: "string \<Rightarrow> string list option"
  write_error :: "string \<Rightarrow> py_error option"
  stdout :: "message list"

definition print :: "message \<Rightarrow> world \<Rightarrow> world" where
  "print m w = w\<lparr>stdout := stdout w @ [m]\<rparr>"

definition isdir :: "world \<Rightarrow> string \<Rightarrow> bool" where
  "isdir w p = (dirs w p \<noteq> None)"

definition listdir :: "world \<Rightarrow> string \<Rightarrow> string list" where
  "listdir w p = (case dirs w p of None \<Rightarrow> [] | Some names \<Rightarrow> names)"

subsection \<open>The Pillow calls\<close>

text \<open>
  \<open>Image.open(path).convert("RGBA")\<close>: a missing file raises \<open>FileNotFoundError\<close>, a
  directory \<open>IsADirectoryError\<close>, a file that is no image \<open>UnidentifiedImageError\<close>.
  Every image of the model is in RGBA mode.
\<close>

definition Image_open :: "world \<Rightarrow> string \<Rightarrow> py_error + image" where
  "Image_open w path =
     (if isdir w path then Inl IsADirectoryError
      else case files w path of
             None \<Rightarrow> Inl FileNotFoundError
           | Some NotAnImage \<Rightarrow> Inl UnidentifiedImageError
           | Some (ImageFile fmt im) \<Rightarrow> Inr im)"

text \<open>
  \<open>im.resize(size, LANCZOS)\<close>: a request for the size the image already has returns a
  copy; otherwise a requested width or height below 1 raises \<open>ValueError\<close>. Limits of
  memory on very large requests are outside the model.
\<close>

definition Image_resize :: "image \<Rightarrow> int \<times> int \<Rightarrow> py_error + image" where
  "Image_resize im sz =
     (if size_of im = sz then Inr im
      else if fst sz < 1 \<or> snd sz < 1 then Inl ValueError
      else Inr \<lparr>width = fst sz, height = snd sz,
                pixels = Resized (pixels im) (fst sz) (snd sz)\<rparr>)"

text \<open>\<open>Image.new("RGBA", size, (0, 0, 0, 0))\<close>: a negative dimension raises.\<close>

definition Image_new :: "int \<times> int \<Rightarrow> py_error + image" where
  "Image_new sz =
     (if fst sz < 0 \<or> snd sz < 0 then Inl ValueError
      else Inr \<lparr>width = fst sz, height = snd sz, pixels = Blank\<rparr>)"

text \<open>
  \<open>layer.paste(im, (x, y), alpha)\<close>: the part of \<open>im\<close> that falls outside the layer is
  cut off; no position raises. The layer keeps its size.
\<close>

definition Image_paste :: "image \<Rightarrow> image \<Rightarrow> int \<times> int \<Rightarrow> image \<Rightarrow> image" where
  "Image_paste layer im pos alpha =
     layer\<lparr>pixels := Pasted (pixels layer) (pixels im) (pixels alpha) (fst pos) (snd pos)\<rparr>"

text \<open>\<open>Image.alpha_composite(im1, im2)\<close>: the two sizes must agree.\<close>

definition Image_alpha_composite :: "image \<Rightarrow> image \<Rightarrow> py_error + image" where
  "Image_alpha_composite im1 im2 =
     (if size_of im1 \<noteq> size_of im2 then Inl ValueError
      else Inr \<lparr>width = width im1, height = height im1,
                pixels = AlphaComposite (pixels im1) (pixels im2)\<rparr>)"

text \<open>\<open>im.save(path, fmt)\<close>: the format argument decides the encoding, not the path.\<close>

definition Image_save :: "world \<Rightarrow> image \<Rightarrow> string \<Rightarrow> format \<Rightarrow> world \<times> (py_error + unit)" where
  "Image_save w im path fmt =
     (case write_error w path of
        Some e \<Rightarrow> (w, Inl e)
      | None \<Rightarrow> (w\<lparr>files := (files w)(path \<mapsto> ImageFile fmt im)\<rparr>, Inr ()))"

section \<open>The script\<close>

definition IMAGE_HEIGHT_TO_ICON_HEIGHT_RATIO :: int where
  "IMAGE_HEIGHT_TO_ICON_HEIGHT_RATIO = 40"

definition IMAGE_HEIGHT_TO_PADDING_RATIO :: int where
  "IMAGE_HEIGHT_TO_PADDING_RATIO = 100"

definition open_image :: "world \<Rightarrow> string \<Rightarrow> world \<times> (py_error + image)" where
  "open_image w path = (let w1 = print (OpeningImage path) w in (w1, Image_open w1 path))"

definition resize_icon :: "world \<Rightarrow> image \<Rightarrow> int \<Rightarrow> world \<times> (py_error + image)" where
  "resize_icon w icon_image base_height =
     (case int_truediv base_height IMAGE_HEIGHT_TO_ICON_HEIGHT_RATIO of
        Inl e \<Rightarrow> (w, Inl e)
      | Inr new_icon_height \<Rightarrow>
     (case int_truediv (width icon_image) (height icon_image) of
        Inl e \<Rightarrow> (w, Inl e)
      | Inr aspect_ratio \<Rightarrow>
     (case int_of_float (float_mul new_icon_height aspect_ratio) of
        Inl e \<Rightarrow> (w, Inl e)
      | Inr new_icon_width \<Rightarrow>
     (case int_of_float new_icon_height of
        Inl e \<Rightarrow> (w, Inl e)
      | Inr h \<Rightarrow>
          (print (ResizingIcon new_icon_width h) w,
           Image_resize icon_image (new_icon_width, h))))))"

definition calculate_position :: "int \<times> int \<Rightarrow> int \<times> int \<Rightarrow> py_error + int \<times> int" where
  "calculate_position base_size icon_size =
     (let (base_width, base_height) = base_size;
          (icon_width, icon_height) = icon_size
      in case int_truediv base_height IMAGE_HEIGHT_TO_PADDING_RATIO of
           Inl e \<Rightarrow> Inl e
         | Inr ratio \<Rightarrow>
        (case int_of_float ratio of
           Inl e \<Rightarrow> Inl e
         | Inr padding \<Rightarrow>
             Inr (base_width - icon_width - padding, base_height - icon_height - padding)))"

definition generate_output_path :: "string \<Rightarrow> string \<Rightarrow> string" where
  "generate_output_path base_image_path icon_name =
     (let (dir_name, file_name) = os_path_split base_image_path;
          (name, ext) = os_path_splitext file_name;
          (icon_name_part, _) = os_path_splitext icon_name
      in os_path_join dir_name [name @ ''_with_icon_'' @ icon_name_part @ ext])"

definition composite_and_save ::
  "world \<Rightarrow> image \<Rightarrow> image \<Rightarrow> int \<times> int \<Rightarrow> string \<Rightarrow> world \<times> (py_error + unit)" where
  "composite_and_save w base_image icon_image position output_path =
     (case Image_new (size_of base_image) of
        Inl e \<Rightarrow> (w, Inl e)
      | Inr blank \<Rightarrow>
     (let icon_layer = Image_paste blank icon_image position icon_image
      in case Image_alpha_composite base_image icon_layer of
           Inl e \<Rightarrow> (w, Inl e)
         | Inr final_image \<Rightarrow>
        (case Image_save (print (SavingResult output_path) w) final_image output_path PNG of
           (w2, Inl e) \<Rightarrow> (w2, Inl e)
         | (w2, Inr u) \<Rightarrow> (print Done w2, Inr ()))))"

text \<open>
  The body of the \<open>try\<close> statement of \<open>_add_icon_to_single_image\<close>: the first step that
  raises ends it. \<open>not output_path\<close> holds for \<open>None\<close> and for the empty string.
\<close>

definition add_icon_try ::
  "world \<Rightarrow> string \<Rightarrow> string \<Rightarrow> string \<Rightarrow> string option \<Rightarrow> world \<times> (py_error + string)" where
  "add_icon_try w base_image_path icon_path icon_name output_path =
     (case open_image w base_image_path of
        (w1, Inl e) \<Rightarrow> (w1, Inl e)
      | (w1, Inr base_image) \<Rightarrow>
     (case open_image w1 icon_path of
        (w2, Inl e) \<Rightarrow> (w2, Inl e)
      | (w2, Inr icon_image) \<Rightarrow>
     (case resize_icon w2 icon_image (height base_image) of
        (w3, Inl e) \<Rightarrow> (w3, Inl e)
      | (w3, Inr resized_icon) \<Rightarrow>
     (case calculate_position (size_of base_image) (size_of resized_icon) of
        Inl e \<Rightarrow> (w3, Inl e)
      | Inr position \<Rightarrow>
     (let out = (case output_path of
                   None \<Rightarrow> generate_output_path base_image_path icon_name
                 | Some p \<Rightarrow> if p = [] then generate_output_path base_image_path icon_name else p)
      in case composite_and_save w3 base_image resized_icon position out of
           (w4, Inl e) \<Rightarrow> (w4, Inl e)
         | (w4, Inr u) \<Rightarrow> (w4, Inr out))))))"

text \<open>The two \<open>except\<close> clauses: each prints its line and returns \<open>None\<close>.\<close>

definition add_icon_to_single_image ::
  "world \<Rightarrow> string \<Rightarrow> string \<Rightarrow> string option \<Rightarrow> world \<times> string option" where
  "add_icon_to_single_image w base_image_path icon_name output_path =
     (let icon_path = os_path_join ''icon'' [''png'', icon_name]
      in case add_icon_try w base_image_path icon_path icon_name output_path of
           (w', Inr p) \<Rightarrow> (w', Some p)
         | (w', Inl e) \<Rightarrow>
             if e = FileNotFoundError then (print (ErrorCheckPaths e) w', None)
             else (print (ErrorOccurred e) w', None))"

text \<open>The \<open>for\<close> loop of \<open>main\<close> over \<open>enumerate(icons)\<close>; \<open>n\<close> is \<open>len(icons)\<close>.\<close>

fun process_icons :: "world \<Rightarrow> string \<Rightarrow> nat \<Rightarrow> (nat \<times> string) list \<Rightarrow> world" where
  "process_icons w base_image_path n [] = w"
| "process_icons w base_image_path n ((i, current_icon_name) # rest) =
     process_icons
       (fst (add_icon_to_single_image
               (print (ProcessingIcon (i + 1) n current_icon_name) w)
               base_image_path current_icon_name None))
       base_image_path n rest"

definition main :: "world \<Rightarrow> string \<Rightarrow> string \<Rightarrow> string option \<Rightarrow> world" where
  "main w base_image_path icon_name output_path =
     (if lower icon_name = ''all'' then
        (let icon_dir = os_path_join ''icon'' [''png'']
         in if \<not> isdir w icon_dir then print (IconDirNotFound icon_dir) w
            else let icons = filter (\<lambda>f. endswith f ''.png'') (listdir w icon_dir)
                 in if icons = [] then print (NoIconsFound icon_dir) w
                    else process_icons (print (FoundIcons icons) w) base_image_path
                           (length icons) (enumerate 0 icons))
      else fst (add_icon_to_single_image w base_image_path icon_name output_path))"

section \<open>Sample inputs and the formulas of the specification\<close>

text \<open>A world with no file and no directory, where every path can be written.\<close>

definition empty_world :: world where
  "empty_world =
     \<lparr>files = (\<lambda>p. None), dirs = (\<lambda>p. None), write_error = (\<lambda>p. None), stdout = []\<rparr>"

text \<open>
  The icon width as the specification words it, to be compared with \<open>resize_icon\<close>:
  the new height is truncated first, then scaled by the aspect ratio and truncated.
\<close>

definition spec_icon_width :: "image \<Rightarrow> int \<Rightarrow> int" where
  "spec_icon_width icon_image base_height =
     trunc (round_to_double
       (of_int (base_height div 40)
        * round_to_double (of_int (width icon_image) / of_int (height icon_image))))"

text \<open>
  A world for the batch scenario: a base image, an icon directory with a file that is
  no image, a good icon and a file of another kind.
\<close>

definition sample_world :: world where
  "sample_world =
     \<lparr>files = [''photo.jpg'' \<mapsto> ImageFile JPEG \<lparr>width = 800, height = 600, pixels = Pixels 0\<rparr>,
               ''icon/png/x.png'' \<mapsto> NotAnImage,
               ''icon/png/y.png'' \<mapsto> ImageFile PNG \<lparr>width = 100, height = 100, pixels = Pixels 1\<rparr>],
       dirs = [''icon/png'' \<mapsto> [''x.png'', ''y.png'', ''notes.txt'']],
       write_error = (\<lambda>p. None),
       stdout = []\<rparr>"

text \<open>
  The path that lines 149 and 150 of the script choose: the explicit one when it is a
  non-empty string, the derived one otherwise.
\<close>

definition chosen_output_path :: "string \<Rightarrow> string \<Rightarrow> string option \<Rightarrow> string" where
  "chosen_output_path base_image_path icon_name output_path =
     (case output_path of
        None \<Rightarrow> generate_output_path base_image_path icon_name
      | Some p \<Rightarrow> if p = [] then generate_output_path base_image_path icon_name else p)"

section \<open>Properties of the float model\<close>

lemma round_half_even_bounds: "\<lfloor>y\<rfloor> \<le> round_half_even y \<and> round_half_even y \<le> \<lceil>y\<rceil>"
proof -
  have "y = of_int \<lfloor>y\<rfloor> \<or> \<lceil>y\<rceil> = \<lfloor>y\<rfloor> + 1"
    by (metis ceiling_altdef of_int_floor_cancel)
  moreover have "y = of_int \<lfloor>y\<rfloor> \<Longrightarrow> round_half_even y = \<lfloor>y\<rfloor>"
    by (simp add: round_half_even_def Let_def)
  moreover have "\<lfloor>y\<rfloor> \<le> \<lceil>y\<rceil>"
    by (simp add: floor_le_ceiling)
  ultimately show ?thesis
    by (auto simp: round_half_even_def Let_def)
qed

lemma quotient_pow2_lower:
  assumes "0 < x"
  shows "(2::rat) powi (bitlen (fst (quotient_of x)) - bitlen (snd (quotient_of x)) - 1) < x"
proof -
  obtain p q where pq: "quotient_of x = (p, q)" by (cases "quotient_of x")
  have q: "0 < q" using pq quotient_of_denom_pos by blast
  have x: "x = of_int p / of_int q" using pq quotient_of_div by blast
  have p: "0 < p" using assms q x
    by (simp add: zero_less_divide_iff)
  from bitlen_bounds[OF p] have lp: "(2::int) ^ nat (bitlen p - 1) \<le> p" by simp
  from bitlen_bounds[OF q] have uq: "q < (2::int) ^ nat (bitlen q)" by simp
  have bp: "1 \<le> bitlen p" using p by (simp add: bitlen_alt_def)
  have bq: "1 \<le> bitlen q" using q by (simp add: bitlen_alt_def)
  have "(2::rat) powi (bitlen p - bitlen q - 1) = 2 powi (bitlen p - 1) / 2 powi (bitlen q)"
    by (simp add: power_int_diff)
  also have "\<dots> = of_int (2 ^ nat (bitlen p - 1)) / of_int (2 ^ nat (bitlen q))"
    using bp bq by (simp add: power_int_def)
  also have "\<dots> \<le> of_int p / of_int (2 ^ nat (bitlen q))"
    using lp by (simp add: divide_right_mono del: of_int_power)
  also have "\<dots> < of_int p / of_int q"
    using uq p q by (simp add: divide_strict_left_mono del: of_int_power)
  finally show ?thesis using pq x by simp
qed

lemma pow2_less_imp_less:
  assumes "(2::rat) powi a < 2 powi b"
  shows "a < b"
proof (rule ccontr)
  assume "\<not> a < b"
  then have "(2::rat) powi b \<le> 2 powi a" by (intro power_int_increasing) auto
  with assms show False by simp
qed

lemma floor_log2_less:
  assumes "0 < x" "x < 2 powi n"
  shows "floor_log2 x < n"
proof -
  let ?d = "bitlen (fst (quotient_of x)) - bitlen (snd (quotient_of x))"
  have low: "(2::rat) powi (?d - 1) < x" using quotient_pow2_lower[OF assms(1)] .
  show ?thesis
  proof (cases "2 powi ?d \<le> x")
    case True
    then have "floor_log2 x = ?d" by (simp add: floor_log2_def Let_def)
    moreover have "(2::rat) powi ?d < 2 powi n" using True assms(2) by simp
    then have "?d < n" by (rule pow2_less_imp_less)
    ultimately show ?thesis by simp
  next
    case False
    then have "floor_log2 x = ?d - 1" by (simp add: floor_log2_def Let_def)
    moreover have "(2::rat) powi (?d - 1) < 2 powi n" using low assms(2) by simp
    then have "?d - 1 < n" by (rule pow2_less_imp_less)
    ultimately show ?thesis by simp
  qed
qed

lemma floor_log2_lower:
  assumes "0 < x"
  shows "2 powi floor_log2 x \<le> x"
  using quotient_pow2_lower[OF assms]
  by (simp add: floor_log2_def Let_def less_imp_le)

lemma round_to_double_nonneg:
  assumes "0 \<le> x"
  shows "0 \<le> round_to_double x"
proof (cases "x = 0")
  case True
  then show ?thesis by (simp add: round_to_double_def)
next
  case False
  define e where "e = max (floor_log2 \<bar>x\<bar> - 52) (- 1074)"
  have "0 \<le> x / 2 powi e" using assms by simp
  then have "0 \<le> \<lfloor>x / 2 powi e\<rfloor>" by simp
  then have "0 \<le> round_half_even (x / 2 powi e)"
    using round_half_even_bounds[of "x / 2 powi e"] by linarith
  then show ?thesis
    using False by (simp add: round_to_double_def Let_def e_def)
qed

lemma round_to_double_le_pow2:
  assumes "0 \<le> x" "x \<le> 2 ^ n"
  shows "round_to_double x \<le> 2 ^ n"
proof (cases "x = 0")
  case True
  then show ?thesis by (simp add: round_to_double_def)
next
  case False
  define e where "e = max (floor_log2 \<bar>x\<bar> - 52) (- 1074)"
  have xpos: "0 < x" using False assms(1) by simp
  have "x < 2 powi (int n + 1)"
  proof -
    have "(2::rat) ^ n < 2 ^ Suc n" by simp
    then have "x < 2 ^ Suc n" using assms(2) by linarith
    then show ?thesis by (simp add: power_int_add)
  qed
  then have "floor_log2 x < int n + 1" using floor_log2_less[OF xpos] by blast
  then have e_le: "e \<le> int n" using xpos by (simp add: e_def)
  define K :: int where "K = 2 ^ nat (int n - e)"
  have "(2::rat) powi (int n - e) = 2 ^ nat (int n - e)"
    using e_le by (simp add: power_int_def)
  moreover have "(2::rat) powi (int n - e) = 2 powi (int n) / 2 powi e"
    by (simp add: power_int_diff)
  ultimately have K: "of_int K = (2::rat) ^ n / 2 powi e"
    by (simp add: K_def)
  have "x / 2 powi e \<le> of_int K"
    unfolding K using assms(2) by (simp add: divide_right_mono)
  then have "\<lceil>x / 2 powi e\<rceil> \<le> K" by (simp add: ceiling_le_iff)
  then have "round_half_even (x / 2 powi e) \<le> K"
    using round_half_even_bounds[of "x / 2 powi e"] by linarith
  then have "(of_int (round_half_even (x / 2 powi e)) :: rat) \<le> of_int K"
    by (simp only: of_int_le_iff)
  then have "of_int (round_half_even (x / 2 powi e)) * 2 powi e \<le> of_int K * (2::rat) powi e"
    by (simp add: mult_right_mono)
  also have "\<dots> = 2 ^ n" unfolding K by simp
  finally show ?thesis using False by (simp add: round_to_double_def Let_def e_def)
qed

lemma floor_round_to_double_div:
  assumes a: "0 \<le> a" and b: "0 < b" and N: "N \<le> 52"
    and lt: "a < b * 2 ^ N" and small: "b \<le> 2 ^ (53 - N)"
  shows "\<lfloor>round_to_double (of_int a / of_int b)\<rfloor> = a div b"
proof (cases "a = 0")
  case True
  then show ?thesis by (simp add: round_to_double_def)
next
  case False
  define x :: rat where "x = of_int a / of_int b"
  define e where "e = max (floor_log2 \<bar>x\<bar> - 52) (- 1074)"
  define q where "q = a div b"
  have xpos: "0 < x" using False a b by (simp add: x_def)
  have "x < 2 ^ N"
  proof -
    have "(of_int a :: rat) < of_int (b * 2 ^ N)" using lt by (simp only: of_int_less_iff)
    then show ?thesis using b by (simp add: x_def pos_divide_less_eq mult.commute)
  qed
  then have "x < 2 powi (int N)" by simp
  then have "floor_log2 x < int N" using floor_log2_less[OF xpos] by blast
  then have e_le: "e \<le> int N - 53" using xpos N by (simp add: e_def)
  define K :: int where "K = 2 ^ nat (- e)"
  have Kpow: "(of_int K :: rat) = 1 / 2 powi e"
    using e_le N by (simp add: K_def power_int_def field_simps)
  have Kpos: "0 < K" by (simp add: K_def)
  have "(2::int) ^ (53 - N) \<le> 2 ^ nat (- e)"
    using e_le N by (intro power_increasing) auto
  then have bK: "b \<le> K" using small unfolding K_def by (rule order_trans[rotated])
  define y :: rat where "y = x / 2 powi e"
  have y: "y = of_int (a * K) / of_int b" by (simp add: y_def x_def Kpow)
  define m where "m = round_half_even y"
  have "a = q * b + a mod b" by (simp add: q_def)
  moreover have "0 \<le> a mod b" "a mod b < b" using b by simp_all
  ultimately have ab: "q * b \<le> a" "a \<le> q * b + b - 1" by linarith+
  have "of_int (q * K) \<le> y"
  proof -
    have "q * K * b \<le> a * K" using ab(1) Kpos by (simp add: mult.commute mult.left_commute mult_left_mono)
    then have "(of_int (q * K * b) :: rat) \<le> of_int (a * K)" by (simp only: of_int_le_iff)
    then show ?thesis using b unfolding y by (simp add: pos_le_divide_eq)
  qed
  then have lo: "q * K \<le> \<lfloor>y\<rfloor>" by (simp only: le_floor_iff)
  have "y \<le> of_int ((q + 1) * K - 1)"
  proof -
    have "a * K \<le> (q * b + b - 1) * K" using ab(2) Kpos by (simp add: mult_right_mono)
    also have "\<dots> = (q + 1) * K * b - K" by (simp add: algebra_simps)
    also have "\<dots> \<le> (q + 1) * K * b - b" using bK by simp
    also have "\<dots> = ((q + 1) * K - 1) * b" by (simp add: algebra_simps)
    finally have "(of_int (a * K) :: rat) \<le> of_int (((q + 1) * K - 1) * b)" by (simp only: of_int_le_iff)
    then show ?thesis using b unfolding y by (simp add: pos_divide_le_eq)
  qed
  then have hi: "\<lceil>y\<rceil> \<le> (q + 1) * K - 1" by (simp only: ceiling_le_iff)
  have m: "q * K \<le> m" "m < (q + 1) * K"
    using lo hi round_half_even_bounds[of y] unfolding m_def by linarith+
  have r: "round_to_double x = of_int m / of_int K"
  proof -
    have "round_to_double x = of_int (round_half_even (x / 2 powi e)) * 2 powi e"
      using xpos by (simp add: round_to_double_def Let_def e_def)
    then show ?thesis by (simp add: y_def m_def Kpow)
  qed
  have "of_int q \<le> (of_int m :: rat) / of_int K"
  proof -
    have "(of_int (q * K) :: rat) \<le> of_int m" using m(1) by (simp only: of_int_le_iff)
    then show ?thesis using Kpos by (simp add: pos_le_divide_eq)
  qed
  moreover have "(of_int m :: rat) / of_int K < of_int q + 1"
  proof -
    have "(of_int m :: rat) < of_int ((q + 1) * K)" using m(2) by (simp only: of_int_less_iff)
    then show ?thesis using Kpos by (simp add: pos_divide_less_eq)
  qed
  ultimately have "\<lfloor>(of_int m :: rat) / of_int K\<rfloor> = q" by (simp add: floor_unique)
  then show ?thesis using r by (simp add: x_def q_def)
qed

lemma trunc_nonneg: "0 \<le> x \<Longrightarrow> trunc x = \<lfloor>x\<rfloor>"
  by (simp add: trunc_def)

lemma round_to_double_nonpos:
  assumes "x \<le> 0"
  shows "round_to_double x \<le> 0"
proof (cases "x = 0")
  case True
  then show ?thesis by (simp add: round_to_double_def)
next
  case False
  define e where "e = max (floor_log2 \<bar>x\<bar> - 52) (- 1074)"
  have "x / 2 powi e \<le> 0" using assms by (simp add: divide_le_0_iff)
  then have "\<lceil>x / 2 powi e\<rceil> \<le> 0" by (simp add: ceiling_le_iff)
  then have "round_half_even (x / 2 powi e) \<le> 0"
    using round_half_even_bounds[of "x / 2 powi e"] by linarith
  then have "(of_int (round_half_even (x / 2 powi e)) :: rat) * 2 powi e \<le> 0"
    by (simp add: mult_le_0_iff)
  then show ?thesis
    using False by (simp add: round_to_double_def Let_def e_def)
qed

lemma trunc_nonpos: "x \<le> 0 \<Longrightarrow> trunc x \<le> 0"
  by (auto simp: trunc_def ceiling_le_iff floor_le_iff intro: order_trans)

lemma int_truediv_finite:
  assumes "0 \<le> a" "a < 2 ^ 31" "0 < b"
  shows "int_truediv a b = Inr (Finite (round_to_double (of_int a / of_int b)))"
    and "0 \<le> round_to_double (of_int a / of_int b)"
    and "round_to_double (of_int a / of_int b) \<le> 2 ^ 31"
proof -
  let ?x = "of_int a / of_int b :: rat"
  let ?r = "round_to_double ?x"
  have x0: "0 \<le> ?x" using assms by simp
  have "(of_int a :: rat) \<le> of_int a * of_int b"
    using assms(1,3) by (simp add: mult_le_cancel_left1)
  then have "?x \<le> of_int a" using assms(3) by (simp add: pos_divide_le_eq)
  moreover have "(of_int a :: rat) \<le> of_int (2 ^ 31)" using assms(2) by (simp only: of_int_le_iff)
  ultimately have x31: "?x \<le> 2 ^ 31" by simp
  show r0: "0 \<le> ?r" using x0 by (rule round_to_double_nonneg)
  show r31: "?r \<le> 2 ^ 31" using x0 x31 by (rule round_to_double_le_pow2)
  have "(2::rat) ^ 31 < 2 ^ 1024" by simp
  then have "\<bar>?r\<bar> < 2 ^ 1024" using r0 r31 by linarith
  then show "int_truediv a b = Inr (Finite ?r)"
    using assms(3) by (simp add: int_truediv_def Let_def)
qed

lemma int_truediv_floor:
  assumes "0 \<le> a" "a < 2 ^ 31" "0 < b" "b \<le> 2 ^ 22"
  shows "\<lfloor>round_to_double (of_int a / of_int b)\<rfloor> = a div b"
proof -
  have "a * 1 \<le> a * b" using assms(1,3) by (intro mult_left_mono) auto
  then have "a \<le> b * a" by (simp add: mult.commute)
  also have "b * a < b * 2 ^ 31" using assms(2,3) by simp
  finally have "a < b * 2 ^ 31" .
  then show ?thesis
    using floor_round_to_double_div[of a b 31] assms by simp
qed

lemma round_to_double_ge_neg_pow2:
  assumes "x \<le> 0" "- (2 ^ n) \<le> x"
  shows "- (2 ^ n) \<le> round_to_double x"
proof (cases "x = 0")
  case True
  then show ?thesis by (simp add: round_to_double_def)
next
  case False
  define e where "e = max (floor_log2 \<bar>x\<bar> - 52) (- 1074)"
  have xpos: "0 < \<bar>x\<bar>" using False by simp
  have "\<bar>x\<bar> \<le> 2 ^ n" using assms by simp
  moreover have "(2::rat) ^ n < 2 ^ Suc n" by simp
  ultimately have "\<bar>x\<bar> < 2 ^ Suc n" by linarith
  then have "\<bar>x\<bar> < 2 powi (int n + 1)" by (simp add: power_int_add)
  then have "floor_log2 \<bar>x\<bar> < int n + 1" using floor_log2_less[OF xpos] by blast
  then have e_le: "e \<le> int n" by (simp add: e_def)
  define K :: int where "K = 2 ^ nat (int n - e)"
  have "(2::rat) powi (int n - e) = 2 ^ nat (int n - e)"
    using e_le by (simp add: power_int_def)
  moreover have "(2::rat) powi (int n - e) = 2 powi (int n) / 2 powi e"
    by (simp add: power_int_diff)
  ultimately have K: "of_int K = (2::rat) ^ n / 2 powi e"
    by (simp add: K_def)
  have "- (2 ^ n) / 2 powi e \<le> x / 2 powi e"
    using assms(2) by (intro divide_right_mono) auto
  then have "of_int (- K) \<le> x / 2 powi e"
    using K by simp
  then have "- K \<le> \<lfloor>x / 2 powi e\<rfloor>" by (simp only: le_floor_iff)
  then have "- K \<le> round_half_even (x / 2 powi e)"
    using round_half_even_bounds[of "x / 2 powi e"] by linarith
  then have "(of_int (- K) :: rat) \<le> of_int (round_half_even (x / 2 powi e))"
    by (simp only: of_int_le_iff)
  then have "of_int (- K) * (2::rat) powi e \<le> of_int (round_half_even (x / 2 powi e)) * 2 powi e"
    by (intro mult_right_mono) auto
  moreover have "of_int (- K) * (2::rat) powi e = - (2 ^ n)" using K by simp
  ultimately show ?thesis using False by (simp add: round_to_double_def Let_def e_def)
qed

lemma round_to_double_abs_le:
  assumes "\<bar>x\<bar> \<le> 2 ^ n"
  shows "\<bar>round_to_double x\<bar> \<le> 2 ^ n"
proof (cases "0 \<le> x")
  case True
  then have "0 \<le> round_to_double x" "round_to_double x \<le> 2 ^ n"
    using assms round_to_double_nonneg round_to_double_le_pow2 by auto
  then show ?thesis by simp
next
  case False
  then have "round_to_double x \<le> 0" "- (2 ^ n) \<le> round_to_double x"
    using assms round_to_double_nonpos[of x] round_to_double_ge_neg_pow2[of x n] by auto
  then show ?thesis by simp
qed

lemma int_truediv_bounded:
  assumes "\<bar>a\<bar> < 2 ^ 31" "0 < b"
  shows "int_truediv a b = Inr (Finite (round_to_double (of_int a / of_int b)))"
    and "\<bar>round_to_double (of_int a / of_int b)\<bar> \<le> 2 ^ 31"
proof -
  let ?x = "of_int a / of_int b :: rat"
  have "(of_int \<bar>a\<bar> :: rat) * 1 \<le> of_int \<bar>a\<bar> * of_int b"
    using assms(2) by (intro mult_left_mono) auto
  then have "\<bar>?x\<bar> \<le> of_int \<bar>a\<bar>" using assms(2) by (simp add: pos_divide_le_eq)
  moreover have "(of_int \<bar>a\<bar> :: rat) \<le> of_int (2 ^ 31)"
    using assms(1) by (simp only: of_int_le_iff)
  ultimately have "\<bar>?x\<bar> \<le> 2 ^ 31" by simp
  then show b: "\<bar>round_to_double ?x\<bar> \<le> 2 ^ 31" by (rule round_to_double_abs_le)
  have "(2::rat) ^ 31 < 2 ^ 1024" by simp
  then have "\<bar>round_to_double ?x\<bar> < 2 ^ 1024" using b by linarith
  then show "int_truediv a b = Inr (Finite (round_to_double ?x))"
    using assms(2) by (simp add: int_truediv_def Let_def)
qed

lemma float_mul_bounded:
  assumes "\<bar>a\<bar> \<le> 2 ^ 31" "\<bar>b\<bar> \<le> 2 ^ 31"
  shows "float_mul (Finite a) (Finite b) = Finite (round_to_double (a * b))"
proof -
  have "\<bar>a\<bar> * \<bar>b\<bar> \<le> 2 ^ 31 * 2 ^ 31" using assms by (intro mult_mono) auto
  then have "\<bar>a * b\<bar> \<le> 2 ^ 62" by (simp add: abs_mult)
  then have "\<bar>round_to_double (a * b)\<bar> \<le> 2 ^ 62" by (rule round_to_double_abs_le)
  moreover have "(2::rat) ^ 62 < 2 ^ 1024" by simp
  ultimately have "\<bar>round_to_double (a * b)\<bar> < 2 ^ 1024" by linarith
  then show ?thesis by (simp add: Let_def)
qed

lemma resize_icon_in_range:
  assumes "\<bar>base_height\<bar> < 2 ^ 31" "\<bar>width icon_image\<bar> < 2 ^ 31" "0 < height icon_image"
  shows "snd (resize_icon w icon_image base_height)
         = Image_resize icon_image
             (trunc (round_to_double
                (round_to_double (of_int base_height / 40)
                 * round_to_double (of_int (width icon_image) / of_int (height icon_image)))),
              trunc (round_to_double (of_int base_height / 40)))"
proof -
  have h: "int_truediv base_height 40 = Inr (Finite (round_to_double (of_int base_height / 40)))"
      "\<bar>round_to_double (of_int base_height / 40)\<bar> \<le> 2 ^ 31"
    using int_truediv_bounded[of base_height 40] assms(1) by simp_all
  note a = int_truediv_bounded[OF assms(2,3)]
  note m = float_mul_bounded[OF h(2) a(2)]
  show ?thesis
    using h(1) a(1) m
    by (simp add: resize_icon_def IMAGE_HEIGHT_TO_ICON_HEIGHT_RATIO_def)
qed

lemma Image_resize_size:
  assumes "Image_resize im sz = Inr r"
  shows "width r = fst sz \<and> height r = snd sz"
  using assms by (auto simp: Image_resize_def size_of_def split: if_splits)

section \<open>How the pipeline changes the world\<close>

lemma print_fields [simp]:
  "files (print m w) = files w" "dirs (print m w) = dirs w"
  "write_error (print m w) = write_error w" "stdout (print m w) = stdout w @ [m]"
  by (simp_all add: print_def)

lemma open_image_world:
  assumes "open_image w p = (w', r)"
  shows "files w' = files w \<and> dirs w' = dirs w \<and> write_error w' = write_error w"
  using assms by (auto simp: open_image_def Let_def)

lemma resize_icon_world:
  assumes "resize_icon w im h = (w', r)"
  shows "files w' = files w \<and> dirs w' = dirs w \<and> write_error w' = write_error w"
  using assms by (auto simp: resize_icon_def split: sum.splits)

lemma composite_and_save_result:
  assumes "composite_and_save w base_image icon_image pos out = (w', r)"
  shows "dirs w' = dirs w \<and> write_error w' = write_error w
         \<and> (case r of
               Inl e \<Rightarrow> files w' = files w
             | Inr u \<Rightarrow> 0 \<le> width base_image \<and> 0 \<le> height base_image
                 \<and> write_error w out = None
                 \<and> files w' = (files w)(out \<mapsto> ImageFile PNG
                      \<lparr>width = width base_image, height = height base_image,
                       pixels = AlphaComposite (pixels base_image)
                          (Pasted Blank (pixels icon_image) (pixels icon_image)
                             (fst pos) (snd pos))\<rparr>))"
  using assms
  by (auto simp: composite_and_save_def Image_new_def Image_paste_def Image_alpha_composite_def
      Image_save_def size_of_def Let_def split: if_splits option.splits)

lemma composite_and_save_succeeds:
  assumes "0 \<le> width base_image" "0 \<le> height base_image" "write_error w out = None"
  shows "\<exists>w'. composite_and_save w base_image icon_image pos out = (w', Inr ())"
  using assms
  by (simp add: composite_and_save_def Image_new_def Image_paste_def Image_alpha_composite_def
      Image_save_def size_of_def Let_def)

lemma add_icon_try_result:
  assumes "add_icon_try w b ip c out = (w', r)"
  shows "dirs w' = dirs w \<and> write_error w' = write_error w
         \<and> (case r of
               Inl e \<Rightarrow> files w' = files w
             | Inr p \<Rightarrow> p = chosen_output_path b c out
                 \<and> (\<exists>im. files w' = (files w)(p \<mapsto> ImageFile PNG im)))"
proof -
  obtain w1 r1 where o1: "open_image w b = (w1, r1)" by (cases "open_image w b")
  note k1 = open_image_world[OF o1]
  show ?thesis
  proof (cases r1)
    case (Inl e)
    then show ?thesis using assms o1 k1 by (auto simp: add_icon_try_def)
  next
    case base: (Inr base_image)
    obtain w2 r2 where o2: "open_image w1 ip = (w2, r2)" by (cases "open_image w1 ip")
    note k2 = open_image_world[OF o2]
    show ?thesis
    proof (cases r2)
      case (Inl e)
      then show ?thesis using assms o1 base o2 k1 k2 by (auto simp: add_icon_try_def)
    next
      case icon: (Inr icon_image)
      obtain w3 r3 where o3: "resize_icon w2 icon_image (height base_image) = (w3, r3)"
        by (cases "resize_icon w2 icon_image (height base_image)")
      note k3 = resize_icon_world[OF o3]
      show ?thesis
      proof (cases r3)
        case (Inl e)
        then show ?thesis
          using assms o1 base o2 icon o3 k1 k2 k3 by (auto simp: add_icon_try_def)
      next
        case resized: (Inr resized_icon)
        show ?thesis
        proof (cases "calculate_position (size_of base_image) (size_of resized_icon)")
          case (Inl e)
          then show ?thesis
            using assms o1 base o2 icon o3 resized k1 k2 k3 by (auto simp: add_icon_try_def)
        next
          case pos: (Inr position)
          obtain w4 r4 where o4: "composite_and_save w3 base_image resized_icon position
              (chosen_output_path b c out) = (w4, r4)"
            by (cases "composite_and_save w3 base_image resized_icon position
              (chosen_output_path b c out)")
          note k4 = composite_and_save_result[OF o4]
          have "add_icon_try w b ip c out
                = (case r4 of Inl e \<Rightarrow> (w4, Inl e)
                            | Inr u \<Rightarrow> (w4, Inr (chosen_output_path b c out)))"
            using o1 base o2 icon o3 resized pos o4
            by (cases r4) (simp_all add: add_icon_try_def chosen_output_path_def Let_def)
          then show ?thesis
            using assms k1 k2 k3 k4 by (cases r4) auto
        qed
      qed
    qed
  qed
qed

lemma add_icon_to_single_image_result:
  assumes "add_icon_to_single_image w b c out = (w', r)"
  shows "dirs w' = dirs w \<and> write_error w' = write_error w
         \<and> (case r of
               None \<Rightarrow> files w' = files w
             | Some p \<Rightarrow> p = chosen_output_path b c out
                 \<and> (\<exists>im. files w' = (files w)(p \<mapsto> ImageFile PNG im)))"
proof -
  obtain w1 r1 where t: "add_icon_try w b (os_path_join ''icon'' [''png'', c]) c out = (w1, r1)"
    by (cases "add_icon_try w b (os_path_join ''icon'' [''png'', c]) c out")
  note k = add_icon_try_result[OF t]
  show ?thesis
    using assms t k
    by (cases r1) (auto simp: add_icon_to_single_image_def Let_def split: if_splits)
qed

lemma sample_single:
  "snd (add_icon_to_single_image sample_world ''photo.jpg'' ''y.png'' (Some ''result.jpg''))
     = Some ''result.jpg''"
  "files (fst (add_icon_to_single_image sample_world ''photo.jpg'' ''y.png'' (Some ''result.jpg'')))
     ''result.jpg''
   = Some (ImageFile PNG
          \<lparr>width = 800, height = 600,
           pixels = AlphaComposite (Pixels 0)
              (Pasted Blank (Resized (Pixels 1) 15 15) (Resized (Pixels 1) 15 15) 779 579)\<rparr>)"
  by code_simp+




lemma icon_dir_path: "os_path_join ''icon'' [''png''] = ''icon/png''"
  by code_simp



lemma process_icons_append:
  "process_icons w b n (xs @ ys) = process_icons (process_icons w b n xs) b n ys"
  by (induction xs arbitrary: w) auto

lemma add_icon_to_single_image_keeps_png:
  assumes "\<exists>im. files w p = Some (ImageFile PNG im)"
  shows "\<exists>im. files (fst (add_icon_to_single_image w b c out)) p = Some (ImageFile PNG im)"
proof -
  obtain w' r where s: "add_icon_to_single_image w b c out = (w', r)"
    by (cases "add_icon_to_single_image w b c out")
  from add_icon_to_single_image_result[OF s] assms s show ?thesis
    by (cases r) auto
qed

lemma process_icons_keeps_png:
  assumes "\<exists>im. files w p = Some (ImageFile PNG im)"
  shows "\<exists>im. files (process_icons w b n xs) p = Some (ImageFile PNG im)"
  using assms
proof (induction xs arbitrary: w)
  case Nil
  then show ?case by simp
next
  case (Cons x xs)
  obtain i c where x: "x = (i, c)" by (cases x)
  have "\<exists>im. files (print (ProcessingIcon (i + 1) n c) w) p = Some (ImageFile PNG im)"
    using Cons.prems by simp
  from Cons.IH[OF add_icon_to_single_image_keeps_png[OF this]] show ?case
    using x by simp
qed








section \<open>Properties of the path functions\<close>

lemma drop_after_rfind:
  "drop (nat (rfind p c + 1)) p = rev (takeWhile (\<lambda>x. x \<noteq> c) (rev p))"
proof (cases "c \<in> set p")
  case False
  then have "\<forall>x \<in> set (rev p). x \<noteq> c" by auto
  then have tw: "takeWhile (\<lambda>x. x \<noteq> c) (rev p) = rev p"
    by (simp only: takeWhile_eq_all_conv)
  have "rfind p c = - 1" using False by (simp add: rfind_def)
  then show ?thesis by (simp add: tw)
next
  case True
  let ?tw = "takeWhile (\<lambda>x. x \<noteq> c) (rev p)"
  have le: "length ?tw \<le> length p"
    by (metis length_rev length_takeWhile_le)
  have "nat (rfind p c + 1) = length p - length ?tw"
    using True le by (simp add: rfind_def)
  moreover have "drop (length p - length ?tw) p = rev (take (length ?tw) (rev p))"
    by (simp add: take_rev)
  moreover have "take (length ?tw) (rev p) = ?tw"
    by (rule takeWhile_eq_take[symmetric])
  ultimately show ?thesis by simp
qed

lemma split_tail_no_sep: "CHR ''/'' \<notin> set (snd (os_path_split p))"
proof -
  have "snd (os_path_split p) = rev (takeWhile (\<lambda>x. x \<noteq> CHR ''/'') (rev p))"
    by (simp add: os_path_split_def Let_def drop_after_rfind)
  then show ?thesis by (auto dest: set_takeWhileD)
qed

lemma splitext_parts: "fst (os_path_splitext f) @ snd (os_path_splitext f) = f"
  by (simp add: os_path_splitext_def Let_def)

lemma splitext_root_subset: "set (fst (os_path_splitext f)) \<subseteq> set f"
  by (metis splitext_parts set_append Un_upper1)

lemma join_step_plain:
  assumes "x \<noteq> []" "hd x \<noteq> CHR ''/''"
  shows "join_step d x = (if d = [] \<or> last d = CHR ''/'' then d else d @ ''/'') @ x"
proof -
  have s: "\<not> startswith x ''/''"
    using assms by (cases x) (simp_all add: startswith_def)
  have e: "endswith d ''/'' \<longleftrightarrow> d \<noteq> [] \<and> last d = CHR ''/''"
  proof (cases "d = []")
    case True
    then show ?thesis by (simp add: endswith_def)
  next
    case False
    then have "drop (length d - 1) d = [last d]"
      by (metis append_butlast_last_id append_eq_conv_conj length_butlast)
    then show ?thesis using False by (auto simp: endswith_def Suc_le_eq)
  qed
  show ?thesis using s e by (auto simp: join_step_def)
qed

lemma output_file_name_plain:
  assumes "CHR ''/'' \<notin> set n"
  shows "n @ ''_with_icon_'' @ i @ e \<noteq> []" and "hd (n @ ''_with_icon_'' @ i @ e) \<noteq> CHR ''/''"
proof -
  show "n @ ''_with_icon_'' @ i @ e \<noteq> []" by simp
  show "hd (n @ ''_with_icon_'' @ i @ e) \<noteq> CHR ''/''"
    using assms by (cases n) auto
qed

lemma take_drop_after_sep:
  assumes "CHR ''/'' \<notin> set x" and "d = [] \<or> last d = CHR ''/''"
  shows "drop (nat (rfind (d @ x) CHR ''/'' + 1)) (d @ x) = x"
    and "take (nat (rfind (d @ x) CHR ''/'' + 1)) (d @ x) = d"
proof -
  let ?i = "nat (rfind (d @ x) CHR ''/'' + 1)"
  have a: "takeWhile (\<lambda>c. c \<noteq> CHR ''/'') (rev d) = []"
    using assms(2) by (cases "rev d") (auto simp: last_rev[symmetric] simp del: last_rev)
  have "takeWhile (\<lambda>c. c \<noteq> CHR ''/'') (rev x @ rev d)
        = rev x @ takeWhile (\<lambda>c. c \<noteq> CHR ''/'') (rev d)"
    by (rule takeWhile_append2) (use assms(1) in auto)
  then have tw: "takeWhile (\<lambda>c. c \<noteq> CHR ''/'') (rev (d @ x)) = rev x"
    using a by simp
  have "drop ?i (d @ x) = rev (takeWhile (\<lambda>c. c \<noteq> CHR ''/'') (rev (d @ x)))"
    by (rule drop_after_rfind)
  also have "\<dots> = x" unfolding tw by (rule rev_rev_ident)
  finally show dr: "drop ?i (d @ x) = x" .
  have "take ?i (d @ x) @ drop ?i (d @ x) = d @ x" by (rule append_take_drop_id)
  then have "take ?i (d @ x) @ x = d @ x" unfolding dr .
  then show "take ?i (d @ x) = d" by (simp only: append_same_eq)
qed

lemma rstrip_shape:
  "rstrip s c = [] \<or> last (rstrip s c) \<noteq> c"
proof (cases "dropWhile (\<lambda>x. x = c) (rev s)")
  case Nil
  then show ?thesis by (simp add: rstrip_def)
next
  case (Cons a as)
  then have "dropWhile (\<lambda>x. x = c) (rev s) \<noteq> []" by simp
  then have "\<not> hd (dropWhile (\<lambda>x. x = c) (rev s)) = c" by (rule hd_dropWhile)
  then have "a \<noteq> c" using Cons by simp
  then show ?thesis using Cons by (simp add: rstrip_def)
qed

lemma split_head_shape:
  "fst (os_path_split p) = replicate (length (fst (os_path_split p))) CHR ''/''
   \<or> last (fst (os_path_split p)) \<noteq> CHR ''/''"
proof -
  let ?h = "take (nat (rfind p CHR ''/'' + 1)) p"
  show ?thesis
  proof (cases "?h \<noteq> [] \<and> ?h \<noteq> replicate (length ?h) CHR ''/''")
    case True
    then have f: "fst (os_path_split p) = rstrip ?h CHR ''/''"
      by (simp add: os_path_split_def Let_def)
    show ?thesis using rstrip_shape[of ?h "CHR ''/''"] unfolding f by auto
  next
    case False
    then have "fst (os_path_split p) = ?h" by (auto simp: os_path_split_def Let_def)
    then show ?thesis using False by auto
  qed
qed

lemma rstrip_snoc:
  assumes "d \<noteq> []" "last d \<noteq> c"
  shows "rstrip (d @ [c]) c = d"
proof -
  have "rev d \<noteq> []" "hd (rev d) \<noteq> c" using assms by (simp_all add: hd_rev)
  then have "dropWhile (\<lambda>x. x = c) (rev d) = rev d" by (cases "rev d") auto
  then show ?thesis by (simp add: rstrip_def)
qed

lemma os_path_split_append:
  assumes "CHR ''/'' \<notin> set x" and "d = [] \<or> last d = CHR ''/''"
  shows "os_path_split (d @ x)
         = (if d \<noteq> [] \<and> d \<noteq> replicate (length d) CHR ''/'' then rstrip d CHR ''/'' else d, x)"
  unfolding os_path_split_def Let_def take_drop_after_sep[OF assms] by (rule refl)

lemma os_path_split_join:
  assumes x: "x \<noteq> []" "CHR ''/'' \<notin> set x"
    and d: "d = replicate (length d) CHR ''/'' \<or> last d \<noteq> CHR ''/''"
  shows "os_path_split (join_step d x) = (d, x)"
proof -
  have hx: "hd x \<noteq> CHR ''/''" using x by (cases x) auto
  note j = join_step_plain[OF x(1) hx, of d]
  show ?thesis
  proof (cases "d = [] \<or> last d = CHR ''/''")
    case True
    then have all: "d = [] \<or> d = replicate (length d) CHR ''/''" using d by auto
    have "join_step d x = d @ x" using j True by simp
    then have "os_path_split (join_step d x)
         = (if d \<noteq> [] \<and> d \<noteq> replicate (length d) CHR ''/'' then rstrip d CHR ''/'' else d, x)"
      using os_path_split_append[OF x(2) True] by simp
    also have "\<dots> = (d, x)" using all by auto
    finally show ?thesis .
  next
    case False
    then have ne: "d \<noteq> []" and l: "last d \<noteq> CHR ''/''" by auto
    let ?d' = "d @ [CHR ''/'']"
    have jj: "join_step d x = ?d' @ x" using j False by simp
    have "?d' = [] \<or> last ?d' = CHR ''/''" by simp
    note sp = os_path_split_append[OF x(2) this]
    have "last d \<in> set ?d'" using ne by simp
    then have "\<exists>c \<in> set ?d'. c \<noteq> CHR ''/''" using l by blast
    then have nall: "?d' \<noteq> replicate (length ?d') CHR ''/''"
      by (metis in_set_replicate)
    have r: "rstrip ?d' CHR ''/'' = d" using ne l by (rule rstrip_snoc)
    have "?d' \<noteq> []" by simp
    then have "os_path_split (?d' @ x) = (rstrip ?d' CHR ''/'', x)"
      using sp nall by (simp only: if_True simp_thms)
    then show ?thesis unfolding jj r .
  qed
qed

lemma splitext_ext_subset: "set (snd (os_path_splitext f)) \<subseteq> set f"
  by (metis splitext_parts set_append Un_upper2)

section \<open>The position calculator\<close>

text \<open>
  Claim C4. For a base image of size \<open>(base_width, base_height)\<close> and a resized icon of
  size \<open>(icon_width, icon_height)\<close>, \<open>_calculate_position\<close> returns
  \<open>(base_width - icon_width - padding, base_height - icon_height - padding)\<close> with
  \<open>padding = base_height div 100\<close>. Nothing is clamped, so a coordinate can be negative,
  and the compositor then ends as it does for the position \<open>(0, 0)\<close>: no position makes
  it raise. Heights are those of images, from 0 up to the largest C int.
\<close>

theorem calculate_position_bottom_right:
  assumes "0 \<le> base_height" and "base_height < 2 ^ 31"
  shows "\<exists>x y. calculate_position (base_width, base_height) (icon_width, icon_height) = Inr (x, y)
           \<and> x = base_width - icon_width - base_height div 100
           \<and> y = base_height - icon_height - base_height div 100
           \<and> snd (composite_and_save w base_image icon_image (x, y) output_path)
             = snd (composite_and_save w base_image icon_image (0, 0) output_path)"
proof -
  note r = int_truediv_finite[of base_height 100] int_truediv_floor[of base_height 100]
  have "calculate_position (base_width, base_height) (icon_width, icon_height)
        = Inr (base_width - icon_width - base_height div 100,
               base_height - icon_height - base_height div 100)"
    using r assms by (simp add: calculate_position_def IMAGE_HEIGHT_TO_PADDING_RATIO_def trunc_nonneg)
  moreover have "snd (composite_and_save w base_image icon_image pos output_path)
        = snd (composite_and_save w base_image icon_image (0, 0) output_path)" for pos
    by (simp add: composite_and_save_def Image_new_def Image_paste_def Image_alpha_composite_def
        Image_save_def print_def size_of_def Let_def split: option.splits)
  ultimately show ?thesis by blast
qed

theorem calculate_position_bottom_right_witness:
  "calculate_position (10, 10) (20, 20) = Inr (- 10, - 10)
   \<and> snd (composite_and_save empty_world \<lparr>width = 10, height = 10, pixels = Pixels 0\<rparr>
            \<lparr>width = 20, height = 20, pixels = Pixels 1\<rparr> (- 10, - 10) ''out.png'') = Inr ()"
proof -
  have "snd (composite_and_save empty_world \<lparr>width = 10, height = 10, pixels = Pixels 0\<rparr>
            \<lparr>width = 20, height = 20, pixels = Pixels 1\<rparr> (0, 0) ''out.png'') = Inr ()"
    by code_simp
  then show ?thesis
    using calculate_position_bottom_right[where base_height = 10 and base_width = 10
        and icon_width = 20 and icon_height = 20 and w = empty_world
        and base_image = "\<lparr>width = 10, height = 10, pixels = Pixels 0\<rparr>"
        and icon_image = "\<lparr>width = 20, height = 20, pixels = Pixels 1\<rparr>"
        and output_path = "''out.png''"]
    by simp
qed

section \<open>The icon resizer\<close>

text \<open>
  Claim C1, as amended. For an icon of positive width and height and a positive base
  height (all below \<open>2 ^ 31\<close>, as the dimensions of an image are), \<open>_resize_icon\<close> asks
  for the height \<open>base_height div 40\<close> and for the width
  \<open>int((base_height / 40) * (icon_width / icon_height))\<close>: the width is computed from
  the quotient \<open>base_height / 40\<close> before it is truncated, in floating point, and not
  from the truncated height. An icon that is returned has exactly this size, and one is
  returned exactly when the width is at least 1 and the base height at least 40.
\<close>

theorem resize_icon_requested_size:
  assumes "0 < width icon_image" and "width icon_image < 2 ^ 31"
    and "0 < height icon_image" and "height icon_image < 2 ^ 31"
    and "0 < base_height" and "base_height < 2 ^ 31"
  shows "\<exists>new_icon_width.
           new_icon_width =
             trunc (round_to_double
               (round_to_double (of_int base_height / 40)
                * round_to_double (of_int (width icon_image) / of_int (height icon_image))))
         \<and> snd (resize_icon w icon_image base_height)
             = Image_resize icon_image (new_icon_width, base_height div 40)
         \<and> (\<forall>r. snd (resize_icon w icon_image base_height) = Inr r
               \<longrightarrow> width r = new_icon_width \<and> height r = base_height div 40)
         \<and> ((\<exists>r. snd (resize_icon w icon_image base_height) = Inr r)
               \<longleftrightarrow> 1 \<le> new_icon_width \<and> 40 \<le> base_height)"
proof -
  let ?nh = "round_to_double (of_int base_height / 40)"
  let ?ar = "round_to_double (of_int (width icon_image) / of_int (height icon_image))"
  let ?W = "trunc (round_to_double (?nh * ?ar))"
  have "0 \<le> ?nh" using int_truediv_finite(2)[of base_height 40] assms(5,6) by simp
  moreover have "\<lfloor>?nh\<rfloor> = base_height div 40"
    using int_truediv_floor[of base_height 40] assms(5,6) by simp
  ultimately have hf: "trunc ?nh = base_height div 40" by (simp add: trunc_nonneg)
  have eq: "snd (resize_icon w icon_image base_height)
            = Image_resize icon_image (?W, base_height div 40)"
    using resize_icon_in_range[of base_height icon_image w] assms hf by simp
  have sz: "\<forall>r. snd (resize_icon w icon_image base_height) = Inr r
               \<longrightarrow> width r = ?W \<and> height r = base_height div 40"
    using eq Image_resize_size by fastforce
  have hd: "1 \<le> base_height div 40 \<longleftrightarrow> 40 \<le> base_height" by presburger
  have ok: "(\<exists>r. snd (resize_icon w icon_image base_height) = Inr r)
               \<longleftrightarrow> 1 \<le> ?W \<and> 40 \<le> base_height"
    unfolding eq hd[symmetric] using assms(1,3)
    by (auto simp: Image_resize_def size_of_def)
  show ?thesis using eq sz ok by blast
qed

theorem resize_icon_requested_size_witness:
  "snd (resize_icon empty_world \<lparr>width = 512, height = 512, pixels = Pixels 1\<rparr> 1080)
     = Inr \<lparr>width = 27, height = 27, pixels = Resized (Pixels 1) 27 27\<rparr>"
proof -
  have "trunc (round_to_double (round_to_double (of_int 1080 / 40)
          * round_to_double (of_int 512 / of_int 512))) = 27"
    by code_simp
  then show ?thesis
    using resize_icon_requested_size[where icon_image = "\<lparr>width = 512, height = 512, pixels = Pixels 1\<rparr>"
        and base_height = 1080 and w = empty_world]
    by (simp add: Image_resize_def size_of_def)
qed

text \<open>
  Claim C1 as stated fails: at a base height of 79 and an icon of 200 by 100 the resizer
  returns an icon of width 3 (\<open>int(1.975 * 2.0)\<close>), where the truncated height 1
  scaled by the aspect ratio gives 2;
  and at the positive base height 20 no icon is produced, since \<open>resize\<close> rejects the
  height 0.
\<close>

theorem resize_icon_width_counterexample:
  "snd (resize_icon empty_world \<lparr>width = 200, height = 100, pixels = Pixels 1\<rparr> 79)
     = Inr \<lparr>width = 3, height = 1, pixels = Resized (Pixels 1) 3 1\<rparr>
   \<and> spec_icon_width \<lparr>width = 200, height = 100, pixels = Pixels 1\<rparr> 79 = 2
   \<and> snd (resize_icon empty_world \<lparr>width = 100, height = 100, pixels = Pixels 1\<rparr> 20)
     = Inl ValueError"
proof -
  have "trunc (round_to_double (round_to_double (of_int 79 / 40)
          * round_to_double (of_int 200 / of_int 100))) = 3"
    and "trunc (round_to_double (of_int 79 / 40)) = 1"
    and "spec_icon_width \<lparr>width = 200, height = 100, pixels = Pixels 1\<rparr> 79 = 2"
    and "trunc (round_to_double (round_to_double (of_int 20 / 40)
          * round_to_double (of_int 100 / of_int 100))) = 0"
    and "trunc (round_to_double (of_int 20 / 40)) = 0"
    by code_simp+
  then show ?thesis
    using resize_icon_in_range[where icon_image = "\<lparr>width = 200, height = 100, pixels = Pixels 1\<rparr>"
        and base_height = 79 and w = empty_world]
      resize_icon_in_range[where icon_image = "\<lparr>width = 100, height = 100, pixels = Pixels 1\<rparr>"
        and base_height = 20 and w = empty_world]
    by (simp add: Image_resize_def size_of_def)
qed

text \<open>
  Claim C2. When the icon's height is 0 or the base height is negative, \<open>_resize_icon\<close>
  raises and returns no image. For numbers in the range of image dimensions (below
  \<open>2 ^ 31\<close> in absolute value) the error is exactly Python's \<open>ZeroDivisionError\<close> for an
  icon height of 0 (line 70), and otherwise the \<open>ValueError\<close> with which \<open>resize\<close>
  rejects a requested dimension below 1. The script has no error type of its own: these
  two exceptions are the failures that the specification calls InvalidDimension.
\<close>

theorem resize_icon_degenerate_fails:
  assumes "0 \<le> height icon_image"
    and "height icon_image = 0 \<or> base_height < 0"
    and "\<bar>base_height\<bar> < 2 ^ 31" and "\<bar>width icon_image\<bar> < 2 ^ 31"
  shows "snd (resize_icon w icon_image base_height)
         = Inl (if height icon_image = 0 then ZeroDivisionError else ValueError)"
proof (cases "height icon_image = 0")
  case True
  have "int_truediv base_height 40
        = Inr (Finite (round_to_double (of_int base_height / of_int 40)))"
    using int_truediv_bounded(1)[of base_height 40] assms(3) by simp
  moreover have "int_truediv (width icon_image) (height icon_image) = Inl ZeroDivisionError"
    using True by (simp add: int_truediv_def)
  ultimately show ?thesis
    using True by (simp add: resize_icon_def IMAGE_HEIGHT_TO_ICON_HEIGHT_RATIO_def)
next
  case False
  then have hpos: "0 < height icon_image" and neg: "base_height < 0" using assms by auto
  have "(of_int base_height :: rat) / 40 \<le> 0" using neg by simp
  then have "round_to_double (of_int base_height / 40) \<le> 0" by (rule round_to_double_nonpos)
  then have t: "trunc (round_to_double (of_int base_height / 40)) \<le> 0" by (rule trunc_nonpos)
  have "snd (resize_icon w icon_image base_height)
         = Image_resize icon_image
             (trunc (round_to_double
                (round_to_double (of_int base_height / 40)
                 * round_to_double (of_int (width icon_image) / of_int (height icon_image)))),
              trunc (round_to_double (of_int base_height / 40)))"
    using assms(3,4) hpos by (rule resize_icon_in_range)
  also have "\<dots> = Inl ValueError"
    using t hpos by (auto simp: Image_resize_def size_of_def)
  finally show ?thesis using False by simp
qed

theorem resize_icon_degenerate_fails_witness:
  "snd (resize_icon empty_world \<lparr>width = 10, height = 0, pixels = Pixels 1\<rparr> 100)
     = Inl ZeroDivisionError
   \<and> snd (resize_icon empty_world \<lparr>width = 10, height = 10, pixels = Pixels 1\<rparr> (- 100))
     = Inl ValueError"
  using resize_icon_degenerate_fails[where icon_image = "\<lparr>width = 10, height = 0, pixels = Pixels 1\<rparr>"
        and base_height = 100 and w = empty_world]
      resize_icon_degenerate_fails[where icon_image = "\<lparr>width = 10, height = 10, pixels = Pixels 1\<rparr>"
        and base_height = "- 100" and w = empty_world]
  by simp

section \<open>The compositor\<close>

text \<open>
  Claim C3. For a base image of valid size (no negative dimension) and an output path
  that can be written, \<open>_composite_and_save\<close> succeeds for every icon and every
  position, and the image it saves has exactly the width and the height of the base
  image.
\<close>

theorem composite_keeps_base_size:
  assumes "0 \<le> width base_image" and "0 \<le> height base_image"
    and "write_error w output_path = None"
  shows "\<exists>w' im. composite_and_save w base_image icon_image position output_path = (w', Inr ())
           \<and> files w' output_path = Some (ImageFile PNG im)
           \<and> width im = width base_image \<and> height im = height base_image"
proof -
  obtain w' where s: "composite_and_save w base_image icon_image position output_path = (w', Inr ())"
    using composite_and_save_succeeds[OF assms] by blast
  from composite_and_save_result[OF s] show ?thesis using s by auto
qed

theorem composite_keeps_base_size_witness:
  "files (fst (composite_and_save empty_world \<lparr>width = 800, height = 600, pixels = Pixels 0\<rparr>
            \<lparr>width = 15, height = 15, pixels = Pixels 1\<rparr> (779, 579) ''out.png'')) ''out.png''
   = Some (ImageFile PNG \<lparr>width = 800, height = 600,
        pixels = AlphaComposite (Pixels 0) (Pasted Blank (Pixels 1) (Pixels 1) 779 579)\<rparr>)"
proof -
  have "write_error empty_world ''out.png'' = None" by (simp add: empty_world_def)
  from composite_keeps_base_size[where base_image = "\<lparr>width = 800, height = 600, pixels = Pixels 0\<rparr>"
      and w = empty_world and output_path = "''out.png''"
      and icon_image = "\<lparr>width = 15, height = 15, pixels = Pixels 1\<rparr>" and position = "(779, 579)", OF _ _ this]
  obtain w' im where "composite_and_save empty_world \<lparr>width = 800, height = 600, pixels = Pixels 0\<rparr>
            \<lparr>width = 15, height = 15, pixels = Pixels 1\<rparr> (779, 579) ''out.png'' = (w', Inr ())"
    by auto
  then show ?thesis
    by (auto simp: composite_and_save_def Image_new_def Image_paste_def Image_alpha_composite_def
      Image_save_def size_of_def Let_def empty_world_def print_def split: if_splits)
qed

text \<open>
  Claim C7. Whenever \<open>_composite_and_save\<close> succeeds, the file at the output path holds
  a PNG image, whatever the extension of that path; and whenever the single-image
  pipeline returns a path, the file there is a PNG image, whatever the format of the
  base image file was.
\<close>

theorem output_saved_as_png:
  "(composite_and_save w base_image icon_image position output_path = (w', Inr ())
      \<longrightarrow> (\<exists>im. files w' output_path = Some (ImageFile PNG im)))
   \<and> (add_icon_to_single_image w base_image_path icon_name out = (w'', Some p)
      \<longrightarrow> (\<exists>im. files w'' p = Some (ImageFile PNG im)))"
proof (intro conjI impI)
  assume "composite_and_save w base_image icon_image position output_path = (w', Inr ())"
  from composite_and_save_result[OF this]
  show "\<exists>im. files w' output_path = Some (ImageFile PNG im)" by auto
next
  assume "add_icon_to_single_image w base_image_path icon_name out = (w'', Some p)"
  from add_icon_to_single_image_result[OF this]
  show "\<exists>im. files w'' p = Some (ImageFile PNG im)" by auto
qed

theorem output_saved_as_png_witness:
  "(\<exists>im. files (fst (composite_and_save empty_world \<lparr>width = 800, height = 600, pixels = Pixels 0\<rparr>
            \<lparr>width = 15, height = 15, pixels = Pixels 1\<rparr> (779, 579) ''a/b_with_icon_red.jpg''))
          ''a/b_with_icon_red.jpg'' = Some (ImageFile PNG im))
   \<and> (\<exists>im. files (fst (add_icon_to_single_image sample_world ''photo.jpg'' ''y.png''
            (Some ''result.jpg''))) ''result.jpg'' = Some (ImageFile PNG im))"
proof -
  let ?c = "composite_and_save empty_world \<lparr>width = 800, height = 600, pixels = Pixels 0\<rparr>
            \<lparr>width = 15, height = 15, pixels = Pixels 1\<rparr> (779, 579) ''a/b_with_icon_red.jpg''"
  let ?s = "add_icon_to_single_image sample_world ''photo.jpg'' ''y.png'' (Some ''result.jpg'')"
  have "snd ?c = Inr ()" by code_simp
  then have c: "?c = (fst ?c, Inr ())" by (simp add: prod_eq_iff)
  have "snd ?s = Some ''result.jpg''" by (rule sample_single(1))
  then have s: "?s = (fst ?s, Some ''result.jpg'')" by (simp add: prod_eq_iff)
  show ?thesis
    using output_saved_as_png[where w = empty_world
        and base_image = "\<lparr>width = 800, height = 600, pixels = Pixels 0\<rparr>"
        and icon_image = "\<lparr>width = 15, height = 15, pixels = Pixels 1\<rparr>"
        and position = "(779, 579)" and output_path = "''a/b_with_icon_red.jpg''"
        and w' = "fst ?c"] c
      output_saved_as_png[where w = sample_world and base_image_path = "''photo.jpg''"
        and icon_name = "''y.png''" and out = "Some ''result.jpg''" and w'' = "fst ?s"
        and p = "''result.jpg''"] s
    by blast
qed

section \<open>The single-image pipeline and the driver\<close>








text \<open>
  Claim C6. An error raised in the \<open>try\<close> block of the single-image pipeline is caught:
  the pipeline prints the report of the error, returns \<open>None\<close> and has written no file.
  In \<open>all\<close> mode every icon is reached, whatever happened to the icons before it: if
  processing an icon succeeds in the state the loop has reached it in, its output is a
  PNG file when \<open>main\<close> returns.
\<close>

theorem errors_caught_and_batch_continues:
  "(add_icon_try w base_image_path (os_path_join ''icon'' [''png'', icon]) icon output_path
        = (w1, Inl e)
      \<longrightarrow> add_icon_to_single_image w base_image_path icon output_path
            = (print (if e = FileNotFoundError then ErrorCheckPaths e else ErrorOccurred e) w1,
               None)
          \<and> files w1 = files w)
   \<and> (lower icon_name = ''all''
       \<and> dirs w ''icon/png'' = Some names
       \<and> filter (\<lambda>f. endswith f ''.png'') names = before @ icon # after
       \<and> snd (add_icon_to_single_image
                (print (ProcessingIcon (length before + 1) (length (before @ icon # after)) icon)
                   (process_icons (print (FoundIcons (before @ icon # after)) w) base_image_path
                      (length (before @ icon # after)) (enumerate 0 before)))
                base_image_path icon None) = Some p
      \<longrightarrow> (\<exists>im. files (main w base_image_path icon_name output_path) p
                  = Some (ImageFile PNG im)))"
proof (intro conjI impI)
  assume t: "add_icon_try w base_image_path (os_path_join ''icon'' [''png'', icon]) icon output_path
        = (w1, Inl e)"
  then show "add_icon_to_single_image w base_image_path icon output_path
            = (print (if e = FileNotFoundError then ErrorCheckPaths e else ErrorOccurred e) w1,
               None)"
    by (simp add: add_icon_to_single_image_def)
  from add_icon_try_result[OF t] show "files w1 = files w" by simp
next
  let ?icons = "before @ icon # after"
  let ?n = "length ?icons"
  let ?w0 = "print (FoundIcons ?icons) w"
  let ?wi = "print (ProcessingIcon (length before + 1) ?n icon)
               (process_icons ?w0 base_image_path ?n (enumerate 0 before))"
  let ?s = "add_icon_to_single_image ?wi base_image_path icon None"
  assume a: "lower icon_name = ''all''
       \<and> dirs w ''icon/png'' = Some names
       \<and> filter (\<lambda>f. endswith f ''.png'') names = ?icons
       \<and> snd ?s = Some p"
  then have m: "main w base_image_path icon_name output_path
        = process_icons ?w0 base_image_path ?n (enumerate 0 ?icons)"
    by (simp add: main_def icon_dir_path isdir_def listdir_def Let_def)
  have en: "enumerate 0 ?icons
        = enumerate 0 before @ (length before, icon) # enumerate (Suc (length before)) after"
    by (simp add: enumerate_append_eq)
  have step: "process_icons ?w0 base_image_path ?n (enumerate 0 ?icons)
        = process_icons (fst ?s) base_image_path ?n (enumerate (Suc (length before)) after)"
    unfolding en process_icons_append by simp
  have "?s = (fst ?s, Some p)" using a by (simp add: prod_eq_iff)
  from add_icon_to_single_image_result[OF this]
  have "\<exists>im. files (fst ?s) p = Some (ImageFile PNG im)" by auto
  from process_icons_keeps_png[OF this]
  show "\<exists>im. files (main w base_image_path icon_name output_path) p = Some (ImageFile PNG im)"
    unfolding m step by blast
qed

theorem errors_caught_and_batch_continues_witness:
  "snd (add_icon_to_single_image sample_world ''photo.jpg'' ''x.png'' None) = None
   \<and> (\<exists>im. files (main sample_world ''photo.jpg'' ''all'' None) ''photo_with_icon_y.jpg''
         = Some (ImageFile PNG im))"
proof -
  let ?t = "add_icon_try sample_world ''photo.jpg'' (os_path_join ''icon'' [''png'', ''x.png''])
              ''x.png'' None"
  have "snd ?t = Inl UnidentifiedImageError" by code_simp
  then have t: "?t = (fst ?t, Inl UnidentifiedImageError)" by (simp add: prod_eq_iff)
  have l: "lower ''all'' = ''all''" by code_simp
  have d: "dirs sample_world ''icon/png'' = Some [''x.png'', ''y.png'', ''notes.txt'']"
    by code_simp
  have f: "filter (\<lambda>f. endswith f ''.png'') [''x.png'', ''y.png'', ''notes.txt'']
           = [''x.png''] @ ''y.png'' # []"
    by code_simp
  have s: "snd (add_icon_to_single_image
                (print (ProcessingIcon (length [''x.png''] + 1)
                          (length ([''x.png''] @ ''y.png'' # [])) ''y.png'')
                   (process_icons (print (FoundIcons ([''x.png''] @ ''y.png'' # [])) sample_world)
                      ''photo.jpg'' (length ([''x.png''] @ ''y.png'' # []))
                      (enumerate 0 [''x.png''])))
                ''photo.jpg'' ''y.png'' None) = Some ''photo_with_icon_y.jpg''"
    by code_simp
  from errors_caught_and_batch_continues[where w = sample_world
      and base_image_path = "''photo.jpg''" and icon = "''x.png''" and output_path = None
      and ?w1.0 = "fst ?t" and e = UnidentifiedImageError] t
  have one: "snd (add_icon_to_single_image sample_world ''photo.jpg'' ''x.png'' None) = None"
    by simp
  from errors_caught_and_batch_continues[where w = sample_world
      and base_image_path = "''photo.jpg''" and icon = "''y.png''" and output_path = None
      and icon_name = "''all''" and names = "[''x.png'', ''y.png'', ''notes.txt'']"
      and before = "[''x.png'']" and after = "[]" and p = "''photo_with_icon_y.jpg''"] l d f s
  have two: "\<exists>im. files (main sample_world ''photo.jpg'' ''all'' None) ''photo_with_icon_y.jpg''
         = Some (ImageFile PNG im)"
    by blast
  show ?thesis using one two by simp
qed

section \<open>The output path\<close>

text \<open>
  Claim C5. Let \<open>d\<close> and \<open>f\<close> be the directory and the file name of the base image
  path (\<open>os.path.split\<close>), \<open>n\<close> and \<open>e\<close> the name and the extension of \<open>f\<close>
  (\<open>os.path.splitext\<close>, so \<open>n @ e = f\<close>), and \<open>i\<close> the icon name without its
  extension. The derived path is the file \<open>n_with_icon_i\<close> with the extension \<open>e\<close> in the
  directory \<open>d\<close>, written as \<open>os.path.join\<close> writes it: \<open>d\<close>, one separator unless \<open>d\<close>
  is empty or ends in one, and the file name. It lies in the base image's directory:
  for an icon file name (no separator in it), \<open>os.path.split\<close> of the derived path
  gives back \<open>d\<close> and that file name. Directory and extension are those of the base
  image, never the icon's, and \<open>a/b.jpg\<close> with \<open>red.png\<close> gives \<open>a/b_with_icon_red.jpg\<close>.
\<close>

theorem generate_output_path_in_base_directory:
  "(let d = fst (os_path_split base_image_path);
        f = snd (os_path_split base_image_path);
        n = fst (os_path_splitext f);
        e = snd (os_path_splitext f);
        i = fst (os_path_splitext icon_name)
    in generate_output_path base_image_path icon_name
         = os_path_join d [n @ ''_with_icon_'' @ i @ e]
       \<and> generate_output_path base_image_path icon_name
         = (if d = [] \<or> last d = CHR ''/'' then d else d @ ''/'') @ n @ ''_with_icon_'' @ i @ e
       \<and> n @ e = f \<and> CHR ''/'' \<notin> set f
       \<and> (CHR ''/'' \<notin> set icon_name
          \<longrightarrow> os_path_split (generate_output_path base_image_path icon_name)
                = (d, n @ ''_with_icon_'' @ i @ e)))
   \<and> generate_output_path ''a/b.jpg'' ''red.png'' = ''a/b_with_icon_red.jpg''"
proof -
  let ?d = "fst (os_path_split base_image_path)"
  let ?f = "snd (os_path_split base_image_path)"
  let ?n = "fst (os_path_splitext ?f)"
  let ?e = "snd (os_path_splitext ?f)"
  let ?i = "fst (os_path_splitext icon_name)"
  let ?x = "?n @ ''_with_icon_'' @ ?i @ ?e"
  have f: "CHR ''/'' \<notin> set ?f" by (rule split_tail_no_sep)
  then have n: "CHR ''/'' \<notin> set ?n" using splitext_root_subset by blast
  have e: "CHR ''/'' \<notin> set ?e" using f splitext_ext_subset by blast
  have jn: "generate_output_path base_image_path icon_name = os_path_join ?d [?x]"
    by (simp add: generate_output_path_def split_beta)
  have g: "generate_output_path base_image_path icon_name = join_step ?d ?x"
    by (simp add: generate_output_path_def os_path_join_def split_beta)
  have eq: "generate_output_path base_image_path icon_name
         = (if ?d = [] \<or> last ?d = CHR ''/'' then ?d else ?d @ ''/'') @ ?x"
    unfolding g using output_file_name_plain[OF n] by (rule join_step_plain)
  have sp: "CHR ''/'' \<notin> set icon_name
          \<longrightarrow> os_path_split (generate_output_path base_image_path icon_name) = (?d, ?x)"
  proof
    assume "CHR ''/'' \<notin> set icon_name"
    then have "CHR ''/'' \<notin> set ?i" using splitext_root_subset by blast
    then have "CHR ''/'' \<notin> set ?x" using n e by simp
    moreover have "?x \<noteq> []" by simp
    ultimately show "os_path_split (generate_output_path base_image_path icon_name) = (?d, ?x)"
      unfolding g using split_head_shape[of base_image_path] by (intro os_path_split_join)
  qed
  have ex: "generate_output_path ''a/b.jpg'' ''red.png'' = ''a/b_with_icon_red.jpg''"
    by code_simp
  have parts: "?n @ ?e = ?f" by (rule splitext_parts)
  show ?thesis
    unfolding Let_def using jn eq parts f sp ex by (intro conjI)
qed

theorem generate_output_path_in_base_directory_witness:
  "os_path_split (generate_output_path ''photos/2024/cat.jpeg'' ''white_on_black.png'')
     = (''photos/2024'', ''cat_with_icon_white_on_black.jpeg'')
   \<and> os_path_split (generate_output_path ''b.jpg'' ''red.png'') = ('''', ''b_with_icon_red.jpg'')"
proof -
  have v: "fst (os_path_split ''photos/2024/cat.jpeg'') = ''photos/2024''"
      "fst (os_path_splitext (snd (os_path_split ''photos/2024/cat.jpeg''))) = ''cat''"
      "snd (os_path_splitext (snd (os_path_split ''photos/2024/cat.jpeg''))) = ''.jpeg''"
      "fst (os_path_splitext ''white_on_black.png'') = ''white_on_black''"
      "fst (os_path_split ''b.jpg'') = ''''"
      "fst (os_path_splitext (snd (os_path_split ''b.jpg''))) = ''b''"
      "snd (os_path_splitext (snd (os_path_split ''b.jpg''))) = ''.jpg''"
      "fst (os_path_splitext ''red.png'') = ''red''"
    by code_simp+
  note t1 = generate_output_path_in_base_directory[where base_image_path = "''photos/2024/cat.jpeg''"
        and icon_name = "''white_on_black.png''", unfolded Let_def,
        THEN conjunct1, THEN conjunct2, THEN conjunct2, THEN conjunct2, THEN conjunct2]
  note t2 = generate_output_path_in_base_directory[where base_image_path = "''b.jpg''"
        and icon_name = "''red.png''", unfolded Let_def,
        THEN conjunct1, THEN conjunct2, THEN conjunct2, THEN conjunct2, THEN conjunct2]
  have "os_path_split (generate_output_path ''photos/2024/cat.jpeg'' ''white_on_black.png'')
     = (''photos/2024'', ''cat_with_icon_white_on_black.jpeg'')"
    using mp[OF t1] by (simp add: v)
  moreover have "os_path_split (generate_output_path ''b.jpg'' ''red.png'')
     = ('''', ''b_with_icon_red.jpg'')"
    using mp[OF t2] by (simp add: v)
  ultimately show ?thesis by simp
qed

end
